theory Spec2Isabelle
  imports Complex_Main "HOL-Library.Word"
begin

section \<open>Data model\<close>

text \<open>
  The browser's \<open>ImageData\<close>: a width, a height and a \<open>Uint8ClampedArray\<close> holding
  four bytes (red, green, blue, alpha) per pixel, row after row. The interface itself
  guarantees \<open>wf_ImageData\<close>: its constructor and \<open>getImageData\<close> raise
  \<open>IndexSizeError\<close> for a zero width or height, the array has
  \<open>4 * width * height\<close> entries, and the length of an array is an integer
  below \<open>2^53\<close>, which a number holds exactly.
\<close>

type_synonym byte = "8 word"

record ImageData =
  width :: nat
  height :: nat
  data :: "byte list"

definition wf_ImageData :: "ImageData \<Rightarrow> bool" where
  "wf_ImageData f \<longleftrightarrow>
     0 < width f \<and> 0 < height f \<and> length (data f) = 4 * width f * height f \<and>
     length (data f) < 2 ^ 53"

definition same_dimensions :: "ImageData \<Rightarrow> ImageData \<Rightarrow> bool" where
  "same_dimensions a b \<longleftrightarrow> width a = width b \<and> height a = height b"

subsection \<open>JavaScript numbers\<close>

text \<open>
  A JavaScript number is an IEEE 754 binary64 value: \<open>NaN\<close>, an infinity
  (\<open>Inf True\<close> is \<open>+Infinity\<close>, \<open>Inf False\<close> is \<open>-Infinity\<close>) or a finite
  value, carried here as the rational it denotes. The sign of zero is not kept:
  \<open>Fin 0\<close> stands for \<open>+0\<close>. The numbers of this program are array lengths,
  counts, byte values and their differences, quotients and products, none of which is
  \<open>-0\<close>.
\<close>

datatype number = NaN | Inf bool | Fin rat

text \<open>
  Subtraction, division and multiplication return the exact result rounded to the
  nearest binary64 value, ties to even (\<open>round64\<close>). A positive \<open>x\<close> with
  \<open>2^e \<le> x < 2^(e+1)\<close> is rounded to a multiple of \<open>2^(e - 52)\<close>, which keeps 53
  significant bits; below \<open>2^(-1022)\<close> the spacing stays \<open>2^(-1074)\<close> (subnormal
  numbers), and a result of \<open>2^1024\<close> or more is an infinity.
\<close>

definition pow2 :: "int \<Rightarrow> rat" where
  "pow2 k = (if 0 \<le> k then 2 ^ nat k else 1 / 2 ^ nat (- k))"

definition round_half_even :: "rat \<Rightarrow> int" where
  "round_half_even y =
     (let f = \<lfloor>y\<rfloor>; d = y - of_int f
      in if d < 1 / 2 then f else if 1 / 2 < d then f + 1
         else if even f then f else f + 1)"

function exponent_up :: "rat \<Rightarrow> int \<Rightarrow> int" where
  "exponent_up x e = (if 2 \<le> x \<and> e < 1024 then exponent_up (x / 2) (e + 1) else e)"
  by pat_completeness auto
termination
  by (relation "measure (\<lambda>(x, e). nat (1024 - e))") auto

function exponent_down :: "rat \<Rightarrow> int \<Rightarrow> int" where
  "exponent_down x e =
     (if x < 1 \<and> - 1022 < e then exponent_down (2 * x) (e - 1) else e)"
  by pat_completeness auto
termination
  by (relation "measure (\<lambda>(x, e). nat (e + 1022))") auto

declare exponent_up.simps [simp del] exponent_down.simps [simp del]

definition exponent :: "rat \<Rightarrow> int" where
  "exponent x = (if 1 \<le> x then exponent_up x 0 else exponent_down x 0)"

text \<open>Rounding a magnitude; \<open>None\<close> when it overflows.\<close>

definition round_magnitude :: "rat \<Rightarrow> rat option" where
  "round_magnitude x =
     (let q = pow2 (exponent x - 52);
          y = of_int (round_half_even (x / q)) * q
      in if pow2 1024 \<le> y then None else Some y)"

definition round64 :: "rat \<Rightarrow> number" where
  "round64 x =
     (case round_magnitude \<bar>x\<bar> of
        None \<Rightarrow> Inf (0 < x)
      | Some y \<Rightarrow> Fin (sgn x * y))"

fun js_sub :: "number \<Rightarrow> number \<Rightarrow> number" where
  "js_sub NaN _ = NaN"
| "js_sub _ NaN = NaN"
| "js_sub (Fin a) (Fin b) = round64 (a - b)"
| "js_sub (Fin a) (Inf q) = Inf (\<not> q)"
| "js_sub (Inf p) (Fin b) = Inf p"
| "js_sub (Inf p) (Inf q) = (if p = q then NaN else Inf p)"

fun js_abs :: "number \<Rightarrow> number" where
  "js_abs NaN = NaN"
| "js_abs (Inf p) = Inf True"
| "js_abs (Fin a) = Fin \<bar>a\<bar>"

fun js_div :: "number \<Rightarrow> number \<Rightarrow> number" where
  "js_div NaN _ = NaN"
| "js_div _ NaN = NaN"
| "js_div (Fin a) (Fin b) =
     (if b = 0 then (if a = 0 then NaN else Inf (0 < a)) else round64 (a / b))"
| "js_div (Fin a) (Inf q) = Fin 0"
| "js_div (Inf p) (Fin b) = Inf (p = (0 \<le> b))"
| "js_div (Inf p) (Inf q) = NaN"

fun js_mul :: "number \<Rightarrow> number \<Rightarrow> number" where
  "js_mul NaN _ = NaN"
| "js_mul _ NaN = NaN"
| "js_mul (Fin a) (Fin b) = round64 (a * b)"
| "js_mul (Fin a) (Inf q) = (if a = 0 then NaN else Inf (q = (0 < a)))"
| "js_mul (Inf p) (Fin b) = (if b = 0 then NaN else Inf (p = (0 < b)))"
| "js_mul (Inf p) (Inf q) = Inf (p = q)"

text \<open>The comparisons \<open>>\<close> and \<open>>=\<close>: false whenever an operand is \<open>NaN\<close>.\<close>

fun js_gt :: "number \<Rightarrow> number \<Rightarrow> bool" where
  "js_gt NaN _ = False"
| "js_gt _ NaN = False"
| "js_gt (Fin a) (Fin b) = (b < a)"
| "js_gt (Fin a) (Inf q) = (\<not> q)"
| "js_gt (Inf p) (Fin b) = p"
| "js_gt (Inf p) (Inf q) = (p \<and> \<not> q)"

fun js_ge :: "number \<Rightarrow> number \<Rightarrow> bool" where
  "js_ge NaN _ = False"
| "js_ge _ NaN = False"
| "js_ge (Fin a) (Fin b) = (b \<le> a)"
| "js_ge (Fin a) (Inf q) = (\<not> q)"
| "js_ge (Inf p) (Fin b) = p"
| "js_ge (Inf p) (Inf q) = (p \<or> \<not> q)"

text \<open>
  Reading a typed array: \<open>data[i]\<close> is the byte at \<open>i\<close>, or \<open>undefined\<close> (\<open>None\<close>)
  when \<open>i\<close> is beyond the array; no exception is raised. In arithmetic
  \<open>undefined\<close> converts to \<open>NaN\<close>.
\<close>

definition js_index :: "byte list \<Rightarrow> nat \<Rightarrow> byte option" where
  "js_index xs i = (if i < length xs then Some (xs ! i) else None)"

fun to_number :: "byte option \<Rightarrow> number" where
  "to_number None = NaN"
| "to_number (Some w) = Fin (of_nat (unat w))"

section \<open>The frame-difference metric\<close>

text \<open>
  The body of the loop of \<open>calculateImageDifference\<close> at array index \<open>i\<close>: the three
  colour channels are read from both arrays and the pixel is different when one of
  \<open>Math.abs(r1 - r2) > 30\<close>, \<open>Math.abs(g1 - g2) > 30\<close>, \<open>Math.abs(b1 - b2) > 30\<close> holds.
\<close>

definition pixel_differs :: "byte list \<Rightarrow> byte list \<Rightarrow> nat \<Rightarrow> bool" where
  "pixel_differs data1 data2 i =
     (let r1 = to_number (js_index data1 i);
          g1 = to_number (js_index data1 (i + 1));
          b1 = to_number (js_index data1 (i + 2));
          r2 = to_number (js_index data2 i);
          g2 = to_number (js_index data2 (i + 1));
          b2 = to_number (js_index data2 (i + 2))
      in js_gt (js_abs (js_sub r1 r2)) (Fin 30) \<or>
         js_gt (js_abs (js_sub g1 g2)) (Fin 30) \<or>
         js_gt (js_abs (js_sub b1 b2)) (Fin 30))"

text \<open>\<open>for (let i = 0; i < data1.length; i += 4)\<close>, with the counter \<open>diffCount\<close>.\<close>

function diff_loop :: "byte list \<Rightarrow> byte list \<Rightarrow> nat \<Rightarrow> nat \<Rightarrow> nat" where
  "diff_loop data1 data2 i diffCount =
     (if i < length data1
      then diff_loop data1 data2 (i + 4)
             (if pixel_differs data1 data2 i then diffCount + 1 else diffCount)
      else diffCount)"
  by pat_completeness auto
termination
  by (relation "measure (\<lambda>(data1, data2, i, diffCount). length data1 - i)") auto

declare diff_loop.simps [simp del]

definition calculateImageDifference :: "ImageData \<Rightarrow> ImageData \<Rightarrow> number" where
  "calculateImageDifference current previous =
     (let data1 = data current;
          data2 = data previous;
          totalPixels = js_div (Fin (of_nat (length data1))) (Fin 4);
          diffCount = diff_loop data1 data2 0 0
      in js_mul (js_div (Fin (of_nat diffCount)) totalPixels) (Fin 100))"

subsection \<open>The metric as the specification words it\<close>

text \<open>
  The specification speaks of pixels, not of array positions: pixel \<open>p\<close> of a frame
  has its red, green and blue intensities at positions \<open>4p\<close>, \<open>4p + 1\<close> and
  \<open>4p + 2\<close>, a pixel is different when the absolute difference of at least one of
  the three exceeds 30, and the score is the number of different pixels divided by the
  number of pixels, times 100, the division and the multiplication being those of
  numbers. These definitions follow those words; the theorems below compare them with
  \<open>calculateImageDifference\<close>.
\<close>

definition pixel_count :: "ImageData \<Rightarrow> nat" where
  "pixel_count f = width f * height f"

definition red :: "ImageData \<Rightarrow> nat \<Rightarrow> int" where
  "red f p = int (unat (data f ! (4 * p)))"

definition green :: "ImageData \<Rightarrow> nat \<Rightarrow> int" where
  "green f p = int (unat (data f ! (4 * p + 1)))"

definition blue :: "ImageData \<Rightarrow> nat \<Rightarrow> int" where
  "blue f p = int (unat (data f ! (4 * p + 2)))"

definition spec_different_pixel :: "ImageData \<Rightarrow> ImageData \<Rightarrow> nat \<Rightarrow> bool" where
  "spec_different_pixel a b p \<longleftrightarrow>
     30 < \<bar>red a p - red b p\<bar> \<or> 30 < \<bar>green a p - green b p\<bar> \<or> 30 < \<bar>blue a p - blue b p\<bar>"

definition spec_different_count :: "ImageData \<Rightarrow> ImageData \<Rightarrow> nat" where
  "spec_different_count a b = length (filter (spec_different_pixel a b) [0..<pixel_count a])"

definition spec_score :: "ImageData \<Rightarrow> ImageData \<Rightarrow> number" where
  "spec_score a b =
     js_mul (js_div (Fin (of_nat (spec_different_count a b))) (Fin (of_nat (pixel_count a))))
            (Fin 100)"

text \<open>
  For frames of unequal size: only the pixel indices of the first frame that the second
  frame has as well can count, and the divisor is the first frame's pixel count.
\<close>

definition spec_clipped_count :: "ImageData \<Rightarrow> ImageData \<Rightarrow> nat" where
  "spec_clipped_count a b =
     length (filter (\<lambda>p. p < pixel_count b \<and> spec_different_pixel a b p)
                    [0..<pixel_count a])"

definition spec_clipped_score :: "ImageData \<Rightarrow> ImageData \<Rightarrow> number" where
  "spec_clipped_score a b =
     js_mul (js_div (Fin (of_nat (spec_clipped_count a b))) (Fin (of_nat (pixel_count a))))
            (Fin 100)"


text \<open>Overwriting every alpha byte (positions \<open>4p + 3\<close>) with values chosen by \<open>f\<close>.\<close>

definition with_alpha :: "(nat \<Rightarrow> byte) \<Rightarrow> byte list \<Rightarrow> byte list" where
  "with_alpha f xs = map (\<lambda>i. if i mod 4 = 3 then f i else xs ! i) [0..<length xs]"

text \<open>Adding 31 to every red byte (positions \<open>4p\<close>), modulo 256.\<close>

definition shift_red :: "byte list \<Rightarrow> byte list" where
  "shift_red xs = map (\<lambda>i. if i mod 4 = 0 then xs ! i + 31 else xs ! i) [0..<length xs]"

text \<open>
  The same shift with the sum cut off at 255, which is what storing \<open>r + 31\<close> into a
  \<open>Uint8ClampedArray\<close> does.
\<close>

definition shift_red_clamped :: "byte list \<Rightarrow> byte list" where
  "shift_red_clamped xs =
     map (\<lambda>i. if i mod 4 = 0
              then (if 255 < unat (xs ! i) + 31 then 255 else xs ! i + 31)
              else xs ! i) [0..<length xs]"

text \<open>
  Frames used as concrete inputs: of one pixel, of two and of three pixels in a row, and
  of none.
\<close>

definition dark1 :: ImageData where
  "dark1 = \<lparr>width = 1, height = 1, data = [10, 20, 30, 255]\<rparr>"

definition bright1 :: ImageData where
  "bright1 = \<lparr>width = 1, height = 1, data = [250, 20, 30, 0]\<rparr>"

definition bright2 :: ImageData where
  "bright2 = \<lparr>width = 2, height = 1, data = [200, 20, 30, 255, 200, 20, 30, 255]\<rparr>"

definition dark3 :: ImageData where
  "dark3 = \<lparr>width = 3, height = 1,
             data = [10, 20, 30, 255, 10, 20, 30, 255, 10, 20, 30, 255]\<rparr>"

definition mixed3 :: ImageData where
  "mixed3 = \<lparr>width = 3, height = 1,
              data = [200, 20, 30, 255, 10, 20, 30, 255, 10, 20, 30, 255]\<rparr>"


section \<open>The sampler\<close>

text \<open>
  The component's mutable state: the React state \<open>isCapturing\<close> and \<open>photoCount\<close>,
  the refs \<open>prevImageDataRef\<close> (the reference frame, \<open>None\<close> for \<open>null\<close>) and
  \<open>captureIntervalRef\<close>, and what the functions reach in the browser: the interval
  timers that are armed (\<open>timers\<close>, with \<open>next_handle\<close> the handle the next
  \<open>setInterval\<close> returns), the files offered for download and the notifications
  shown. Every timer of this program is armed by the one call
  \<open>setInterval(capturePhoto, 500)\<close>, so a handle identifies a timer that runs
  \<open>capturePhoto\<close>; the period is abstracted to "may fire while armed".
\<close>

datatype toast = FotoGespeichert | Fehler | AufnahmeBeendet | AufnahmeGestartet

record state =
  isCapturing :: bool
  photoCount :: nat
  prevImageDataRef :: "ImageData option"
  captureIntervalRef :: "nat option"
  timers :: "nat list"
  next_handle :: nat
  downloads :: "ImageData list"
  toasts :: "toast list"

definition setInterval :: "state \<Rightarrow> nat \<times> state" where
  "setInterval s =
     (next_handle s, s\<lparr>timers := timers s @ [next_handle s], next_handle := next_handle s + 1\<rparr>)"

definition clearInterval :: "nat \<Rightarrow> state \<Rightarrow> state" where
  "clearInterval h s = s\<lparr>timers := removeAll h (timers s)\<rparr>"

text \<open>
  \<open>savePhoto\<close>: \<open>canvas.toBlob\<close> either throws (caught: the notification
  "Fehler"), or hands the callback no blob (the callback returns at once), or hands it a
  blob, which is offered as a download and announced by "Foto gespeichert". The canvas
  holds the frame just drawn, so the file is modelled by that frame; the callback is
  modelled as running within the call. \<open>savePhoto\<close> returns nothing to its caller.
\<close>

datatype blob_result = BlobOk | BlobNull | ToBlobThrows

definition savePhoto :: "ImageData \<Rightarrow> blob_result \<Rightarrow> state \<Rightarrow> state" where
  "savePhoto canvas r s =
     (case r of
        ToBlobThrows \<Rightarrow> s\<lparr>toasts := toasts s @ [Fehler]\<rparr>
      | BlobNull \<Rightarrow> s
      | BlobOk \<Rightarrow> s\<lparr>downloads := downloads s @ [canvas],
                      toasts := toasts s @ [FotoGespeichert]\<rparr>)"

text \<open>
  What one firing of the timer finds: whether the video and canvas elements are mounted,
  whether the canvas yields a 2d context, the frame \<open>getImageData\<close> returns
  (\<open>None\<close> when it raises, as it does for a canvas of width or height 0; the exception
  ends the callback and nothing is changed), and the outcome of \<open>toBlob\<close>.
\<close>

record tick_env =
  video_ref :: bool
  canvas_ref :: bool
  context2d :: bool
  image :: "ImageData option"
  blob :: blob_result

definition capturePhoto :: "tick_env \<Rightarrow> state \<Rightarrow> state" where
  "capturePhoto env s =
     (if \<not> video_ref env \<or> \<not> canvas_ref env then s
      else if \<not> context2d env then s
      else case image env of
        None \<Rightarrow> s
      | Some currentImageData \<Rightarrow>
          (case prevImageDataRef s of
             Some previous \<Rightarrow>
               (let difference = calculateImageDifference currentImageData previous
                in if js_ge difference (Fin 50)
                   then (let s1 = savePhoto currentImageData (blob env) s;
                             s2 = s1\<lparr>photoCount := photoCount s1 + 1\<rparr>
                         in s2\<lparr>prevImageDataRef := Some currentImageData\<rparr>)
                   else s)
           | None \<Rightarrow>
               (let s1 = savePhoto currentImageData (blob env) s;
                    s2 = s1\<lparr>photoCount := photoCount s1 + 1\<rparr>
                in s2\<lparr>prevImageDataRef := Some currentImageData\<rparr>)))"

text \<open>
  \<open>toggleCapture\<close>: the stop branch when \<open>isCapturing\<close>, the start branch
  otherwise. \<open>if (captureIntervalRef.current)\<close> is a truthiness test: \<open>null\<close> and the
  number 0 fail it.
\<close>

definition toggleCapture :: "state \<Rightarrow> state" where
  "toggleCapture s =
     (let s' =
        (if isCapturing s then
           (let s1 = (case captureIntervalRef s of
                        None \<Rightarrow> s
                      | Some h \<Rightarrow>
                          if h \<noteq> 0 then (clearInterval h s)\<lparr>captureIntervalRef := None\<rparr>
                          else s)
            in s1\<lparr>toasts := toasts s1 @ [AufnahmeBeendet]\<rparr>)
         else
           (let s1 = s\<lparr>photoCount := 0\<rparr>;
                s2 = s1\<lparr>prevImageDataRef := None\<rparr>;
                (h, s3) = setInterval s2;
                s4 = s3\<lparr>captureIntervalRef := Some h\<rparr>
            in s4\<lparr>toasts := toasts s4 @ [AufnahmeGestartet]\<rparr>))
      in s'\<lparr>isCapturing := \<not> isCapturing s\<rparr>)"

subsection \<open>The step relation\<close>

text \<open>
  Two things happen to the sampler: the user presses the toggle button, or an armed
  timer fires and runs \<open>capturePhoto\<close>. A timer that is not armed cannot fire.
\<close>

datatype event = Click | TimerFires nat tick_env

fun fire :: "event \<Rightarrow> state \<Rightarrow> state option" where
  "fire Click s = Some (toggleCapture s)"
| "fire (TimerFires h env) s =
     (if h \<in> set (timers s) then Some (capturePhoto env s) else None)"

fun run :: "state \<Rightarrow> event list \<Rightarrow> state option" where
  "run s [] = Some s"
| "run s (e # es) = (case fire e s of None \<Rightarrow> None | Some s' \<Rightarrow> run s' es)"

text \<open>The component as mounted; timer handles are positive integers.\<close>

definition initial :: state where
  "initial = \<lparr>isCapturing = False, photoCount = 0, prevImageDataRef = None,
              captureIntervalRef = None, timers = [], next_handle = 1,
              downloads = [], toasts = []\<rparr>"

definition sampler_inv :: "state \<Rightarrow> bool" where
  "sampler_inv s \<longleftrightarrow>
     0 < next_handle s \<and>
     (prevImageDataRef s = None \<longrightarrow> photoCount s = 0) \<and>
     (case captureIntervalRef s of
        None \<Rightarrow> \<not> isCapturing s \<and> timers s = []
      | Some h \<Rightarrow> isCapturing s \<and> timers s = [h] \<and> 0 < h)"

text \<open>
  A tick obtains a frame when none of the early exits of \<open>capturePhoto\<close> is taken
  and \<open>getImageData\<close> returns.
\<close>

definition frame_obtained :: "tick_env \<Rightarrow> ImageData \<Rightarrow> bool" where
  "frame_obtained env f \<longleftrightarrow>
     video_ref env \<and> canvas_ref env \<and> context2d env \<and> image env = Some f"

text \<open>
  What the specification calls accepting a frame: the save is requested, the counter
  goes up by one and the frame becomes the reference frame.
\<close>

definition spec_accept :: "ImageData \<Rightarrow> blob_result \<Rightarrow> state \<Rightarrow> state" where
  "spec_accept f r s =
     (savePhoto f r s)\<lparr>photoCount := photoCount s + 1, prevImageDataRef := Some f\<rparr>"

text \<open>
  The tick takes the accepting path: there is no reference frame yet, or the score
  against it passes the test \<open>difference >= 50\<close>.
\<close>

definition accepting :: "ImageData \<Rightarrow> state \<Rightarrow> bool" where
  "accepting f s =
     (case prevImageDataRef s of
        None \<Rightarrow> True
      | Some previous \<Rightarrow> js_ge (calculateImageDifference f previous) (Fin 50))"

text \<open>Environments and a state used as concrete inputs.\<close>

definition sees :: "ImageData \<Rightarrow> blob_result \<Rightarrow> tick_env" where
  "sees f r = \<lparr>video_ref = True, canvas_ref = True, context2d = True,
               image = Some f, blob = r\<rparr>"

definition after_first_save :: state where
  "after_first_save = capturePhoto (sees dark1 BlobOk) (toggleCapture initial)"

section \<open>Properties of rounding\<close>

lemma exponent_down_le: "exponent_down x e \<le> e"
proof (induction x e rule: exponent_down.induct)
  case (1 x e)
  show ?case
  proof (cases "x < 1 \<and> - 1022 < e")
    case True
    with 1 have "exponent_down (2 * x) (e - 1) \<le> e - 1" by simp
    with True show ?thesis by (subst exponent_down.simps) simp
  next
    case False
    then show ?thesis by (subst exponent_down.simps) auto
  qed
qed

lemma exponent_up_le:
  "0 \<le> e \<Longrightarrow> e \<le> 52 \<Longrightarrow> x < 2 ^ nat (53 - e) \<Longrightarrow> exponent_up x e \<le> 52"
proof (induction x e rule: exponent_up.induct)
  case (1 x e)
  show ?case
  proof (cases "2 \<le> x \<and> e < 1024")
    case True
    have e: "e < 52"
    proof (rule ccontr)
      assume "\<not> e < 52"
      with 1(3) have "e = 52" by simp
      with 1(4) True show False by simp
    qed
    have "nat (53 - e) = Suc (nat (53 - (e + 1)))" using 1(2) e by simp
    then have "x / 2 < 2 ^ nat (53 - (e + 1))" using 1(4) by simp
    with 1(1) [OF True] 1(2) e have "exponent_up (x / 2) (e + 1) \<le> 52" by simp
    with True show ?thesis by (subst exponent_up.simps) simp
  next
    case False
    with 1(3) show ?thesis by (subst exponent_up.simps) auto
  qed
qed

lemma exponent_le_52: "x < 2 ^ 53 \<Longrightarrow> exponent x \<le> 52"
  using exponent_up_le [of 0 x] exponent_down_le [of x 0]
  by (auto simp: exponent_def)

lemma round_half_even_int: "round_half_even (of_int k) = k"
  by (simp add: round_half_even_def)



lemma pow2_below_52:
  assumes "e \<le> 52"
  shows "pow2 (e - 52) = 1 / 2 ^ nat (52 - e)"
proof (cases "e = 52")
  case True
  then show ?thesis by (simp add: pow2_def)
next
  case False
  with assms have "e - 52 < 0" by simp
  moreover have "- (e - 52) = 52 - e" by simp
  ultimately show ?thesis by (simp add: pow2_def)
qed

lemma pow2_1024_large: "(2::rat) ^ 53 \<le> pow2 1024"
proof -
  have "(2::rat) ^ 53 \<le> 2 ^ 1024" by (rule power_increasing) simp_all
  then show ?thesis by (simp add: pow2_def)
qed


lemma round_magnitude_nat:
  assumes "n < 2 ^ 53"
  shows "round_magnitude (of_nat n) = Some (of_nat n)"
proof -
  define k where "k = nat (52 - exponent (of_nat n))"
  have lt: "(of_nat n :: rat) < 2 ^ 53"
    using assms of_nat_less_iff [of n "2 ^ 53", where ?'a = rat] by simp
  then have q: "pow2 (exponent (of_nat n) - 52) = 1 / 2 ^ k"
    unfolding k_def by (rule pow2_below_52 [OF exponent_le_52])
  have "(of_nat n :: rat) * 2 ^ k = of_int (int (n * 2 ^ k))" by simp
  then have "round_half_even (of_nat n * 2 ^ k) = int (n * 2 ^ k)"
    by (simp only: round_half_even_int)
  moreover have "(of_nat n :: rat) < pow2 1024"
    using lt pow2_1024_large by linarith
  ultimately show ?thesis
    by (simp add: round_magnitude_def q Let_def)
qed


lemma round64_of_nat: "n < 2 ^ 53 \<Longrightarrow> round64 (of_nat n) = Fin (of_nat n)"
  using round_magnitude_nat [of n] by (cases "n = 0") (auto simp: round64_def)

lemma round64_of_int:
  assumes "\<bar>z\<bar> < 2 ^ 53"
  shows "round64 (of_int z) = Fin (of_int z)"
proof -
  have "nat \<bar>z\<bar> < 2 ^ 53" using assms by (simp add: nat_less_iff)
  from round_magnitude_nat [OF this]
  have "round_magnitude \<bar>of_int z\<bar> = Some (of_int \<bar>z\<bar>)" by simp
  moreover have "sgn (of_int z :: rat) * of_int \<bar>z\<bar> = of_int z"
    by (simp add: sgn_if)
  ultimately show ?thesis by (simp add: round64_def)
qed

lemma js_abs_round64_minus: "js_abs (round64 (- x)) = js_abs (round64 x)"
proof (cases "round_magnitude \<bar>x\<bar>")
  case None
  then show ?thesis by (simp add: round64_def)
next
  case (Some y)
  then show ?thesis by (simp add: round64_def abs_mult)
qed

text \<open>Rounding concrete values.\<close>

lemma round64_numeral:
  "(numeral k :: int) < 2 ^ 53 \<Longrightarrow> round64 (numeral k) = Fin (numeral k)"
  "(numeral k :: int) < 2 ^ 53 \<Longrightarrow> round64 (- numeral k) = Fin (- numeral k)"
  "round64 0 = Fin 0"
  "round64 1 = Fin 1"
  using round64_of_int [of "numeral k"] round64_of_int [of "- numeral k"]
    round64_of_int [of 0] round64_of_int [of 1]
  by simp_all

lemma round64_half: "round64 (1 / 2) = Fin (1 / 2)"
  by (simp add: round64_def round_magnitude_def exponent_def exponent_down.simps pow2_def
      round_half_even_def Let_def)

text \<open>
  One third is not a binary64 value, and neither is a hundred times its rounding: one
  differing pixel out of three scores 33.33333333333333, a little less than 100/3.
\<close>

lemma one_third_score:
  "js_mul (js_div (Fin 1) (Fin 3)) (Fin 100) = Fin (2345624805922133 / 70368744177664)"
  by code_simp

lemma one_third_score_below: "(2345624805922133 / 70368744177664 :: rat) < 100 / 3"
  by simp

section \<open>Properties of the metric\<close>

subsection \<open>One pixel\<close>

lemma exceeds_Some:
  "js_gt (js_abs (js_sub (to_number (Some a)) (to_number (Some b)))) (Fin 30)
     \<longleftrightarrow> 30 < \<bar>int (unat a) - int (unat b)\<bar>"
proof -
  let ?z = "int (unat a) - int (unat b)"
  have "unat a < 256" "unat b < 256"
    using unsigned_less [of a, where ?'a = nat] unsigned_less [of b, where ?'a = nat]
    by simp_all
  moreover have "(2::int) ^ 53 = 9007199254740992" by simp
  ultimately have "\<bar>?z\<bar> < 2 ^ 53" by linarith
  from round64_of_int [OF this]
  have "js_sub (to_number (Some a)) (to_number (Some b)) = Fin (of_int ?z)" by simp
  then have "js_gt (js_abs (js_sub (to_number (Some a)) (to_number (Some b)))) (Fin 30)
        \<longleftrightarrow> (of_int 30 < (of_int \<bar>?z\<bar> :: rat))"
    by simp
  also have "\<dots> \<longleftrightarrow> 30 < \<bar>?z\<bar>"
    by (rule of_int_less_iff)
  finally show ?thesis .
qed

lemma exceeds_None:
  "\<not> js_gt (js_abs (js_sub (to_number None) y)) (Fin 30)"
  "\<not> js_gt (js_abs (js_sub x (to_number None))) (Fin 30)"
  by (cases x; simp)+

lemma pixel_differs_sym: "pixel_differs d1 d2 i = pixel_differs d2 d1 i"
proof -
  have s: "js_abs (js_sub x y) = js_abs (js_sub y x)" for x y
  proof (cases x; cases y)
    fix a b assume "x = Fin a" "y = Fin b"
    then show ?thesis using js_abs_round64_minus [of "b - a"] by simp
  qed auto
  show ?thesis
    unfolding pixel_differs_def Let_def
    by (simp only: s [of "to_number (js_index d1 _)"])
qed

lemma pixel_differs_in_range:
  assumes "4 * p + 2 < length d1" "4 * p + 2 < length d2"
  shows "pixel_differs d1 d2 (4 * p) \<longleftrightarrow>
     30 < \<bar>int (unat (d1 ! (4 * p))) - int (unat (d2 ! (4 * p)))\<bar> \<or>
     30 < \<bar>int (unat (d1 ! (4 * p + 1))) - int (unat (d2 ! (4 * p + 1)))\<bar> \<or>
     30 < \<bar>int (unat (d1 ! (4 * p + 2))) - int (unat (d2 ! (4 * p + 2)))\<bar>"
proof -
  have "js_index d1 (4 * p) = Some (d1 ! (4 * p))"
    "js_index d1 (4 * p + 1) = Some (d1 ! (4 * p + 1))"
    "js_index d1 (4 * p + 2) = Some (d1 ! (4 * p + 2))"
    "js_index d2 (4 * p) = Some (d2 ! (4 * p))"
    "js_index d2 (4 * p + 1) = Some (d2 ! (4 * p + 1))"
    "js_index d2 (4 * p + 2) = Some (d2 ! (4 * p + 2))"
    using assms by (simp_all add: js_index_def)
  then show ?thesis
    unfolding pixel_differs_def Let_def by (simp only: exceeds_Some)
qed

lemma pixel_differs_beyond:
  assumes "length d2 \<le> 4 * p"
  shows "\<not> pixel_differs d1 d2 (4 * p)"
proof -
  have "js_index d2 (4 * p) = None" "js_index d2 (4 * p + 1) = None"
    "js_index d2 (4 * p + 2) = None"
    using assms by (simp_all add: js_index_def)
  then show ?thesis
    unfolding pixel_differs_def Let_def
    by (simp only: exceeds_None simp_thms not_False_eq_True)
qed

lemma js_index_with_alpha:
  "i mod 4 \<noteq> 3 \<Longrightarrow> js_index (with_alpha f xs) i = js_index xs i"
  by (simp add: js_index_def with_alpha_def)

lemma pixel_differs_with_alpha:
  assumes "4 dvd i"
  shows "pixel_differs (with_alpha f d1) (with_alpha g d2) i = pixel_differs d1 d2 i"
proof -
  have "i mod 4 \<noteq> 3" "(i + 1) mod 4 \<noteq> 3" "(i + 2) mod 4 \<noteq> 3"
    using assms by presburger+
  then have "js_index (with_alpha h xs) i = js_index xs i"
    "js_index (with_alpha h xs) (i + 1) = js_index xs (i + 1)"
    "js_index (with_alpha h xs) (i + 2) = js_index xs (i + 2)" for h xs
    by (simp_all add: js_index_with_alpha)
  then show ?thesis
    unfolding pixel_differs_def by (simp only:)
qed

lemma red_shift_exceeds: "30 < \<bar>int (unat r) - int (unat (r + 31 :: byte))\<bar>"
proof -
  have "unat r < 256"
    using unsigned_less [of r, where ?'a = nat] by simp
  moreover have "unat (r + 31) = (unat r + 31) mod 256"
    by (simp add: unat_word_ariths)
  ultimately show ?thesis
    by (cases "unat r + 31 < 256") (auto simp: mod_if)
qed

subsection \<open>The loop\<close>

lemma diff_loop_sym:
  "length d1 = length d2 \<Longrightarrow> diff_loop d1 d2 i c = diff_loop d2 d1 i c"
proof (induction d1 d2 i c rule: diff_loop.induct)
  case (1 data1 data2 i diffCount)
  show ?case
  proof (cases "i < length data1")
    case True
    with 1 show ?thesis
      by (subst (1 2) diff_loop.simps) (simp add: pixel_differs_sym [of data1 data2])
  next
    case False
    with 1 show ?thesis by (subst (1 2) diff_loop.simps) simp
  qed
qed

lemma diff_loop_with_alpha:
  "4 dvd i \<Longrightarrow> diff_loop (with_alpha f d1) (with_alpha g d2) i c = diff_loop d1 d2 i c"
proof (induction d1 d2 i c rule: diff_loop.induct)
  case (1 data1 data2 i diffCount)
  have len: "length (with_alpha f data1) = length data1"
    by (simp add: with_alpha_def)
  show ?case
  proof (cases "i < length data1")
    case True
    with 1 len show ?thesis
      by (subst (1 2) diff_loop.simps) (simp add: pixel_differs_with_alpha)
  next
    case False
    with len show ?thesis by (subst (1 2) diff_loop.simps) simp
  qed
qed

text \<open>
  Started at pixel \<open>k\<close> of an array of \<open>n\<close> whole pixels, the loop adds to the counter
  the number of pixels from \<open>k\<close> on at which its test succeeds.
\<close>

lemma diff_loop_count:
  "length d1 = 4 * n \<Longrightarrow> k \<le> n \<Longrightarrow>
   diff_loop d1 d2 (4 * k) c =
     c + length (filter (\<lambda>p. pixel_differs d1 d2 (4 * p)) [k..<n])"
proof (induction "n - k" arbitrary: k c)
  case 0
  then show ?case by (subst diff_loop.simps) simp
next
  case (Suc m)
  then have lt: "k < n" and m: "m = n - Suc k" by auto
  have step: "diff_loop d1 d2 (4 * k) c =
      diff_loop d1 d2 (4 * Suc k) (if pixel_differs d1 d2 (4 * k) then c + 1 else c)"
    using lt Suc.prems(1) by (subst diff_loop.simps) (simp add: add.commute)
  have "diff_loop d1 d2 (4 * Suc k) c' =
      c' + length (filter (\<lambda>p. pixel_differs d1 d2 (4 * p)) [Suc k..<n])" for c'
    using Suc.hyps(1) [OF m Suc.prems(1)] lt by simp
  then show ?case
    using lt by (simp add: step upt_conv_Cons)
qed

subsection \<open>The score\<close>

lemma wf_length: "wf_ImageData f \<Longrightarrow> length (data f) = 4 * pixel_count f"
  by (simp add: wf_ImageData_def pixel_count_def)

lemma wf_pixel_count_pos: "wf_ImageData f \<Longrightarrow> 0 < pixel_count f"
  by (simp add: wf_ImageData_def pixel_count_def)

lemma wf_pixel_count_less: "wf_ImageData f \<Longrightarrow> pixel_count f < 2 ^ 53"
  by (simp add: wf_ImageData_def pixel_count_def)

lemma calc_unfold:
  "calculateImageDifference a b =
     js_mul (js_div (Fin (of_nat (diff_loop (data a) (data b) 0 0)))
                    (js_div (Fin (of_nat (length (data a)))) (Fin 4))) (Fin 100)"
  by (simp only: calculateImageDifference_def Let_def)

text \<open>
  For an array of \<open>n\<close> whole pixels, \<open>totalPixels\<close> is \<open>n\<close> exactly, and the score is
  the loop's count divided by \<open>n\<close>, times 100, in the arithmetic of numbers.
\<close>

lemma calc_count:
  assumes "length (data a) = 4 * n" "n < 2 ^ 53"
  shows "calculateImageDifference a b =
     js_mul (js_div
       (Fin (of_nat (length (filter (\<lambda>p. pixel_differs (data a) (data b) (4 * p)) [0..<n]))))
       (Fin (of_nat n))) (Fin 100)"
proof -
  have "diff_loop (data a) (data b) 0 0 =
      length (filter (\<lambda>p. pixel_differs (data a) (data b) (4 * p)) [0..<n])"
    using diff_loop_count [OF assms(1), of 0 "data b" 0] by simp
  moreover have "js_div (Fin (of_nat (length (data a)))) (Fin 4) = Fin (of_nat n)"
    using assms(1) round64_of_nat [OF assms(2)] by simp
  ultimately show ?thesis
    unfolding calc_unfold by (simp only:)
qed

lemma filter_differs_clipped:
  assumes "wf_ImageData a" "wf_ImageData b"
  shows "filter (\<lambda>p. pixel_differs (data a) (data b) (4 * p)) [0..<pixel_count a] =
         filter (\<lambda>p. p < pixel_count b \<and> spec_different_pixel a b p) [0..<pixel_count a]"
proof (rule filter_cong [OF refl])
  fix p assume "p \<in> set [0..<pixel_count a]"
  then have pa: "4 * p + 2 < length (data a)"
    using wf_length [OF assms(1)] by simp
  show "pixel_differs (data a) (data b) (4 * p)
        \<longleftrightarrow> (p < pixel_count b \<and> spec_different_pixel a b p)"
  proof (cases "p < pixel_count b")
    case True
    then have "4 * p + 2 < length (data b)"
      using wf_length [OF assms(2)] by simp
    from pixel_differs_in_range [OF pa this] True show ?thesis
      by (simp add: spec_different_pixel_def red_def green_def blue_def)
  next
    case False
    then have "length (data b) \<le> 4 * p"
      using wf_length [OF assms(2)] by simp
    from pixel_differs_beyond [OF this] False show ?thesis by simp
  qed
qed

lemma calc_clipped:
  assumes "wf_ImageData a" "wf_ImageData b"
  shows "calculateImageDifference a b = spec_clipped_score a b"
  unfolding spec_clipped_score_def spec_clipped_count_def
  using calc_count [OF wf_length [OF assms(1)] wf_pixel_count_less [OF assms(1)], of b]
  by (simp only: filter_differs_clipped [OF assms])

lemma calc_with_alpha:
  "calculateImageDifference (a\<lparr>data := with_alpha f (data a)\<rparr>)
                            (b\<lparr>data := with_alpha g (data b)\<rparr>)
     = calculateImageDifference a b"
proof -
  have "length (with_alpha f (data a)) = length (data a)"
    by (simp add: with_alpha_def)
  then show ?thesis
    unfolding calc_unfold
    by (simp add: diff_loop_with_alpha del: js_div.simps js_mul.simps)
qed


lemma score_of_all:
  assumes "0 < n"
  shows "js_mul (js_div (Fin (of_nat n)) (Fin (of_nat n))) (Fin 100) = Fin 100"
proof -
  have "js_div (Fin (of_nat n)) (Fin (of_nat n)) = Fin 1"
    using assms by (simp add: round64_numeral)
  then show ?thesis by (simp add: round64_numeral)
qed

text \<open>Evaluating the metric on the concrete frames.\<close>

lemmas eval_metric =
  calculateImageDifference_def diff_loop.simps pixel_differs_def js_index_def
  round64_numeral round64_half

lemma wf_concrete:
  "wf_ImageData dark1" "wf_ImageData bright1" "wf_ImageData bright2"
  "wf_ImageData dark3" "wf_ImageData mixed3"
  by (simp_all add: wf_ImageData_def dark1_def bright1_def bright2_def dark3_def mixed3_def)

subsection \<open>Claims about the metric\<close>

text \<open>
  C2. For two frames of identical dimensions the score is the number of pixel indices
  at which the absolute difference of the red, the green or the blue value exceeds 30,
  divided by the number of pixels, times 100, computed in the arithmetic of numbers.
  The alpha bytes are never examined: overwriting them in both frames leaves the score
  as it is.
\<close>

theorem calculateImageDifference_formula:
  assumes "wf_ImageData a" "wf_ImageData b" "same_dimensions a b"
  shows "calculateImageDifference a b = spec_score a b \<and>
         calculateImageDifference (a\<lparr>data := with_alpha f (data a)\<rparr>)
                                  (b\<lparr>data := with_alpha g (data b)\<rparr>)
           = calculateImageDifference a b"
proof -
  have eq: "pixel_count b = pixel_count a"
    using assms(3) by (simp add: same_dimensions_def pixel_count_def)
  have "filter (\<lambda>p. p < pixel_count b \<and> spec_different_pixel a b p) [0..<pixel_count a]
        = filter (spec_different_pixel a b) [0..<pixel_count a]"
    by (rule filter_cong) (simp_all add: eq)
  then have "spec_clipped_score a b = spec_score a b"
    by (simp only: spec_clipped_score_def spec_clipped_count_def spec_score_def
        spec_different_count_def)
  with calc_clipped [OF assms(1,2)] calc_with_alpha show ?thesis by simp
qed

theorem calculateImageDifference_formula_witness:
  "wf_ImageData mixed3 \<and> wf_ImageData dark3 \<and> same_dimensions mixed3 dark3 \<and>
   calculateImageDifference mixed3 dark3 = spec_score mixed3 dark3 \<and>
   spec_different_count mixed3 dark3 = 1 \<and> pixel_count mixed3 = 3 \<and>
   spec_score mixed3 dark3 = Fin (2345624805922133 / 70368744177664) \<and>
   calculateImageDifference (mixed3\<lparr>data := with_alpha (\<lambda>i. 7) (data mixed3)\<rparr>)
                            (dark3\<lparr>data := with_alpha (\<lambda>i. 9) (data dark3)\<rparr>)
     = calculateImageDifference mixed3 dark3"
proof -
  have c: "spec_different_count mixed3 dark3 = 1"
    by (simp add: spec_different_count_def spec_different_pixel_def red_def green_def
        blue_def pixel_count_def dark3_def mixed3_def upt_rec)
  have n: "pixel_count mixed3 = 3"
    by (simp add: pixel_count_def mixed3_def)
  have "spec_score mixed3 dark3 = Fin (2345624805922133 / 70368744177664)"
    unfolding spec_score_def c n using one_third_score by simp
  with calculateImageDifference_formula [of mixed3 dark3 "\<lambda>i. 7" "\<lambda>i. 9"] wf_concrete c n
  show ?thesis
    by (simp add: same_dimensions_def dark3_def mixed3_def)
qed



text \<open>
  Outside that domain, on an array of no bytes in first place, which no \<open>ImageData\<close>
  holds, the loop does not run and the function divides 0 by 0.
\<close>

lemma score_of_empty_array:
  assumes "data a = []"
  shows "calculateImageDifference a b = NaN"
  using assms by (simp add: calculateImageDifference_def diff_loop.simps round64_numeral)

text \<open>
  C6, as amended. For two frames with the same number of pixels, in particular two
  frames of identical dimensions, the score does not depend on the order of the
  arguments.
\<close>

theorem score_symmetric:
  assumes "length (data a) = length (data b)"
  shows "calculateImageDifference a b = calculateImageDifference b a"
  unfolding calc_unfold by (simp only: assms diff_loop_sym [OF assms])

theorem score_symmetric_witness:
  "length (data dark1) = length (data bright1) \<and>
   calculateImageDifference dark1 bright1 = calculateImageDifference bright1 dark1"
  using score_symmetric [of dark1 bright1] by (simp add: dark1_def bright1_def)

text \<open>
  C6, as stated for all frames, fails when the sizes differ: the loop and the divisor
  follow the first argument. One dark pixel against two bright ones scores 100, the
  two bright pixels against the one dark pixel score 50.
\<close>

theorem score_not_symmetric:
  "calculateImageDifference dark1 bright2 = Fin 100 \<and>
   calculateImageDifference bright2 dark1 = Fin 50 \<and>
   calculateImageDifference dark1 bright2 \<noteq> calculateImageDifference bright2 dark1"
  by (simp add: eval_metric dark1_def bright2_def)

text \<open>
  C7, as amended. If frame \<open>b\<close> is frame \<open>a\<close> with 31 added to every red value
  modulo 256, wrapping around, and \<open>a\<close> has at least one pixel, the score of \<open>a\<close>
  against \<open>b\<close> is 100.
\<close>

theorem red_shift_scores_100:
  assumes "wf_ImageData a"
  shows "calculateImageDifference a (a\<lparr>data := shift_red (data a)\<rparr>) = Fin 100"
proof -
  let ?n = "pixel_count a"
  let ?b = "a\<lparr>data := shift_red (data a)\<rparr>"
  have pos: "0 < ?n" by (rule wf_pixel_count_pos [OF assms])
  have len: "length (data a) = 4 * ?n" by (rule wf_length [OF assms])
  have "filter (\<lambda>p. pixel_differs (data a) (data ?b) (4 * p)) [0..<?n] = [0..<?n]"
  proof (rule filter_True, rule ballI)
    fix p assume "p \<in> set [0..<?n]"
    then have r: "4 * p + 2 < length (data a)" using len by simp
    then have r': "4 * p + 2 < length (data ?b)" by (simp add: shift_red_def)
    have "data ?b ! (4 * p) = data a ! (4 * p) + 31"
      using r by (simp add: shift_red_def)
    with pixel_differs_in_range [OF r r'] red_shift_exceeds [of "data a ! (4 * p)"]
    show "pixel_differs (data a) (data ?b) (4 * p)" by simp
  qed
  then have "length (filter (\<lambda>p. pixel_differs (data a) (data ?b) (4 * p)) [0..<?n]) = ?n"
    by simp
  with calc_count [OF len wf_pixel_count_less [OF assms], of ?b] score_of_all [OF pos]
  show ?thesis by (simp only:)
qed

theorem red_shift_scores_100_witness:
  "wf_ImageData bright1 \<and>
   data (bright1\<lparr>data := shift_red (data bright1)\<rparr>) = [25, 20, 30, 0] \<and>
   calculateImageDifference bright1 (bright1\<lparr>data := shift_red (data bright1)\<rparr>) = Fin 100"
proof -
  have "data (bright1\<lparr>data := shift_red (data bright1)\<rparr>) = [25, 20, 30, 0]"
    by (simp add: shift_red_def bright1_def upt_rec)
  with red_shift_scores_100 [of bright1] wf_concrete show ?thesis by simp
qed

text \<open>
  C7, as stated, also allows the shifted value to be clamped, and then it fails: a red
  value of 250 becomes 255, a difference of 5, and the one pixel of the frame does not
  count, so the score is 0.
\<close>

theorem clamped_red_shift_scores_0:
  "wf_ImageData bright1 \<and>
   data (bright1\<lparr>data := shift_red_clamped (data bright1)\<rparr>) = [255, 20, 30, 0] \<and>
   calculateImageDifference bright1 (bright1\<lparr>data := shift_red_clamped (data bright1)\<rparr>)
     = Fin 0 \<and>
   calculateImageDifference bright1 (bright1\<lparr>data := shift_red_clamped (data bright1)\<rparr>)
     \<noteq> Fin 100"
proof -
  have d: "data (bright1\<lparr>data := shift_red_clamped (data bright1)\<rparr>) = [255, 20, 30, 0]"
    by (simp add: shift_red_clamped_def bright1_def upt_rec)
  have "calculateImageDifference bright1 (bright1\<lparr>data := [255, 20, 30, 0]\<rparr>) = Fin 0"
    by (simp add: eval_metric bright1_def)
  moreover have "bright1\<lparr>data := shift_red_clamped (data bright1)\<rparr>
      = bright1\<lparr>data := [255, 20, 30, 0]\<rparr>"
    using d by simp
  ultimately show ?thesis using d wf_concrete by simp
qed

text \<open>
  C10. For two frames of any dimensions, equal or not, the metric returns a number
  (the loop reads beyond the second array without an exception, and what it reads there
  never counts): the number of differing pixel indices that both frames have, divided
  by the first frame's pixel count, times 100, computed in the arithmetic of numbers.
\<close>

theorem score_unequal_dimensions:
  assumes "wf_ImageData a" "wf_ImageData b"
  shows "calculateImageDifference a b = spec_clipped_score a b"
  by (rule calc_clipped [OF assms])

theorem score_unequal_dimensions_witness:
  "wf_ImageData mixed3 \<and> wf_ImageData dark1 \<and> \<not> same_dimensions mixed3 dark1 \<and>
   calculateImageDifference mixed3 dark1 = spec_clipped_score mixed3 dark1 \<and>
   spec_clipped_count mixed3 dark1 = 1 \<and> pixel_count mixed3 = 3 \<and>
   spec_clipped_score mixed3 dark1 = Fin (2345624805922133 / 70368744177664)"
proof -
  have c: "spec_clipped_count mixed3 dark1 = 1"
    by (simp add: spec_clipped_count_def spec_different_pixel_def red_def green_def
        blue_def pixel_count_def dark1_def mixed3_def upt_rec)
  have n: "pixel_count mixed3 = 3"
    by (simp add: pixel_count_def mixed3_def)
  have "spec_clipped_score mixed3 dark1 = Fin (2345624805922133 / 70368744177664)"
    unfolding spec_clipped_score_def c n using one_third_score by simp
  with score_unequal_dimensions [of mixed3 dark1] wf_concrete c n
  show ?thesis
    by (simp add: same_dimensions_def dark1_def mixed3_def)
qed

section \<open>Properties of the sampler\<close>

subsection \<open>What each function leaves alone\<close>

lemma savePhoto_keeps:
  "photoCount (savePhoto f r s) = photoCount s"
  "prevImageDataRef (savePhoto f r s) = prevImageDataRef s"
  "isCapturing (savePhoto f r s) = isCapturing s"
  "captureIntervalRef (savePhoto f r s) = captureIntervalRef s"
  "timers (savePhoto f r s) = timers s"
  "next_handle (savePhoto f r s) = next_handle s"
  by (cases r; simp add: savePhoto_def)+

lemma savePhoto_downloads:
  "downloads (savePhoto f BlobOk s) = downloads s @ [f]"
  "r \<noteq> BlobOk \<Longrightarrow> downloads (savePhoto f r s) = downloads s"
  "toasts (savePhoto f ToBlobThrows s) = toasts s @ [Fehler]"
  by (cases r; simp add: savePhoto_def)+

lemma spec_accept_fields:
  "photoCount (spec_accept f r s) = photoCount s + 1"
  "prevImageDataRef (spec_accept f r s) = Some f"
  "downloads (spec_accept f r s) = downloads (savePhoto f r s)"
  "toasts (spec_accept f r s) = toasts (savePhoto f r s)"
  "isCapturing (spec_accept f r s) = isCapturing s"
  "captureIntervalRef (spec_accept f r s) = captureIntervalRef s"
  "timers (spec_accept f r s) = timers s"
  "next_handle (spec_accept f r s) = next_handle s"
  by (simp_all add: spec_accept_def savePhoto_keeps)

lemma spec_accept_changes: "spec_accept f r s \<noteq> s"
proof
  assume "spec_accept f r s = s"
  then have "photoCount (spec_accept f r s) = photoCount s" by simp
  then show False by (simp add: spec_accept_fields)
qed

text \<open>The two branches of \<open>capturePhoto\<close> once a frame is obtained.\<close>

lemma capturePhoto_obtained:
  assumes "frame_obtained env cur"
  shows "capturePhoto env s = (if accepting cur s then spec_accept cur (blob env) s else s)"
  using assms
  by (simp add: capturePhoto_def frame_obtained_def accepting_def spec_accept_def
      savePhoto_keeps Let_def split: option.split)

lemma capturePhoto_cases:
  "capturePhoto env s = s \<or>
   (\<exists>cur. capturePhoto env s = spec_accept cur (blob env) s)"
  by (auto simp: capturePhoto_def spec_accept_def savePhoto_keeps Let_def
      split: option.split)

subsection \<open>An invariant of the reachable states\<close>

lemma inv_initial: "sampler_inv initial"
  by (simp add: sampler_inv_def initial_def)

lemma inv_toggleCapture: "sampler_inv s \<Longrightarrow> sampler_inv (toggleCapture s)"
  by (auto simp: sampler_inv_def toggleCapture_def setInterval_def clearInterval_def
      Let_def split: option.splits)

lemma inv_capturePhoto:
  assumes "sampler_inv s"
  shows "sampler_inv (capturePhoto env s)"
proof -
  from capturePhoto_cases [of env s] show ?thesis
  proof
    assume "capturePhoto env s = s"
    with assms show ?thesis by simp
  next
    assume "\<exists>cur. capturePhoto env s = spec_accept cur (blob env) s"
    then obtain cur where "capturePhoto env s = spec_accept cur (blob env) s" ..
    with assms show ?thesis
      by (simp add: sampler_inv_def spec_accept_fields split: option.splits)
  qed
qed

lemma inv_fire: "sampler_inv s \<Longrightarrow> fire e s = Some t \<Longrightarrow> sampler_inv t"
  by (cases e) (auto simp: inv_toggleCapture inv_capturePhoto split: if_splits)

lemma inv_run: "sampler_inv s \<Longrightarrow> run s evs = Some t \<Longrightarrow> sampler_inv t"
proof (induction evs arbitrary: s)
  case Nil
  then show ?case by simp
next
  case (Cons e evs)
  then show ?case
    by (auto split: option.splits dest: inv_fire)
qed

lemma reachable_inv: "run initial evs = Some s \<Longrightarrow> sampler_inv s"
  by (rule inv_run [OF inv_initial])

text \<open>Evaluating the sampler on the concrete inputs.\<close>

lemmas eval_sampler =
  capturePhoto_def toggleCapture_def savePhoto_def setInterval_def clearInterval_def
  initial_def sees_def Let_def

lemma after_first_save_eq:
  "after_first_save =
     \<lparr>isCapturing = True, photoCount = 1, prevImageDataRef = Some dark1,
      captureIntervalRef = Some 1, timers = [1], next_handle = 2,
      downloads = [dark1], toasts = [AufnahmeGestartet, FotoGespeichert]\<rparr>"
  by (simp add: after_first_save_def eval_sampler)

lemma after_first_save_reachable:
  "run initial [Click, TimerFires 1 (sees dark1 BlobOk)] = Some after_first_save"
  by (simp add: after_first_save_def eval_sampler)

lemma after_first_save_fields:
  "isCapturing after_first_save"
  "photoCount after_first_save = 1"
  "prevImageDataRef after_first_save = Some dark1"
  "timers after_first_save = [1]"
  "downloads after_first_save = [dark1]"
  by (simp_all add: after_first_save_eq)

lemma sees_obtains: "frame_obtained (sees f r) f"
  by (simp add: frame_obtained_def sees_def)

lemma blob_sees: "blob (sees f r) = r"
  by (simp add: sees_def)

subsection \<open>Claims about the tick\<close>

text \<open>
  C1. In a tick that obtains a frame while a reference frame exists, the frame is
  accepted (save requested, counter plus one, reference frame replaced) exactly when
  the score of the frame against the reference frame passes \<open>>= 50\<close>. A score of
  exactly 50 accepts; with a score below 50 the state is left as it was.
\<close>

theorem capturePhoto_threshold:
  assumes "frame_obtained env cur" "prevImageDataRef s = Some ref"
  shows "(capturePhoto env s = spec_accept cur (blob env) s
            \<longleftrightarrow> js_ge (calculateImageDifference cur ref) (Fin 50)) \<and>
         (\<not> js_ge (calculateImageDifference cur ref) (Fin 50) \<longrightarrow> capturePhoto env s = s) \<and>
         (calculateImageDifference cur ref = Fin 50
            \<longrightarrow> capturePhoto env s = spec_accept cur (blob env) s) \<and>
         (\<forall>q. calculateImageDifference cur ref = Fin q \<and> q < 50
            \<longrightarrow> capturePhoto env s = s) \<and>
         photoCount (spec_accept cur (blob env) s) = photoCount s + 1 \<and>
         prevImageDataRef (spec_accept cur (blob env) s) = Some cur \<and>
         downloads (spec_accept cur BlobOk s) = downloads s @ [cur]"
proof -
  have acc: "accepting cur s \<longleftrightarrow> js_ge (calculateImageDifference cur ref) (Fin 50)"
    using assms(2) by (simp add: accepting_def)
  have eq: "capturePhoto env s =
      (if js_ge (calculateImageDifference cur ref) (Fin 50)
       then spec_accept cur (blob env) s else s)"
    using capturePhoto_obtained [OF assms(1), of s] acc by simp
  have ne: "s \<noteq> spec_accept cur (blob env) s"
    using spec_accept_changes [of cur "blob env" s] by simp
  show ?thesis
    using ne by (auto simp: eq spec_accept_fields savePhoto_downloads)
qed

theorem capturePhoto_threshold_witness:
  "frame_obtained (sees bright2 BlobOk) bright2 \<and>
   prevImageDataRef after_first_save = Some dark1 \<and>
   calculateImageDifference bright2 dark1 = Fin 50 \<and>
   capturePhoto (sees bright2 BlobOk) after_first_save
     = spec_accept bright2 BlobOk after_first_save \<and>
   photoCount (capturePhoto (sees bright2 BlobOk) after_first_save) = 2"
proof -
  have d: "calculateImageDifference bright2 dark1 = Fin 50"
    by (simp add: eval_metric dark1_def bright2_def)
  have p: "prevImageDataRef after_first_save = Some dark1"
    by (rule after_first_save_fields)
  from capturePhoto_threshold [OF sees_obtains p, of bright2 BlobOk] d p
  show ?thesis
    by (simp add: sees_obtains blob_sees spec_accept_fields after_first_save_fields)
qed

text \<open>
  C3, as amended. When the save fails in a tick that takes the accepting path, nothing
  is stored (and a thrown error is reported by the notification "Fehler"), but the
  counter still goes up by one and the frame still becomes the reference frame. The
  session continues: the capturing flag and the timer are as before.
\<close>

theorem save_failure_still_accepts:
  assumes "frame_obtained env cur" "accepting cur s" "blob env \<noteq> BlobOk"
  shows "photoCount (capturePhoto env s) = photoCount s + 1 \<and>
         prevImageDataRef (capturePhoto env s) = Some cur \<and>
         downloads (capturePhoto env s) = downloads s \<and>
         (blob env = ToBlobThrows \<longrightarrow> toasts (capturePhoto env s) = toasts s @ [Fehler]) \<and>
         isCapturing (capturePhoto env s) = isCapturing s \<and>
         captureIntervalRef (capturePhoto env s) = captureIntervalRef s \<and>
         timers (capturePhoto env s) = timers s"
  using assms(2,3)
  by (simp add: capturePhoto_obtained [OF assms(1)] spec_accept_fields savePhoto_downloads
      savePhoto_keeps)

theorem save_failure_still_accepts_witness:
  "frame_obtained (sees bright1 ToBlobThrows) bright1 \<and>
   accepting bright1 after_first_save \<and>
   blob (sees bright1 ToBlobThrows) \<noteq> BlobOk \<and>
   photoCount (capturePhoto (sees bright1 ToBlobThrows) after_first_save) = 2 \<and>
   prevImageDataRef (capturePhoto (sees bright1 ToBlobThrows) after_first_save)
     = Some bright1 \<and>
   downloads (capturePhoto (sees bright1 ToBlobThrows) after_first_save) = [dark1]"
proof -
  have a: "accepting bright1 after_first_save"
    by (simp add: accepting_def after_first_save_fields eval_metric dark1_def bright1_def)
  have b: "blob (sees bright1 ToBlobThrows) \<noteq> BlobOk"
    by (simp add: blob_sees)
  from save_failure_still_accepts [OF sees_obtains a b] a b
  show ?thesis
    by (simp add: sees_obtains after_first_save_fields)
qed

text \<open>
  C3, as stated, fails: after one saved frame, a tick whose frame differs enough and
  whose save throws leaves the counter at 2 instead of 1 and the reference frame at the
  new frame instead of the old one, although no second file was stored.
\<close>

theorem save_failure_changes_state:
  "photoCount after_first_save = 1 \<and>
   prevImageDataRef after_first_save = Some dark1 \<and>
   photoCount (capturePhoto (sees bright1 ToBlobThrows) after_first_save) = 2 \<and>
   prevImageDataRef (capturePhoto (sees bright1 ToBlobThrows) after_first_save)
     = Some bright1 \<and>
   downloads (capturePhoto (sees bright1 ToBlobThrows) after_first_save)
     = downloads after_first_save \<and>
   toasts (capturePhoto (sees bright1 ToBlobThrows) after_first_save)
     = toasts after_first_save @ [Fehler]"
  by (simp add: after_first_save_eq eval_sampler eval_metric dark1_def bright1_def)

text \<open>
  C4. In every reachable state without a reference frame, a tick that obtains a frame
  accepts it whatever it shows: the save is requested (and the file stored when the
  save succeeds), the counter becomes 1 and the frame becomes the reference frame.
\<close>

theorem first_tick_accepts:
  assumes "run initial evs = Some s" "frame_obtained env cur" "prevImageDataRef s = None"
  shows "capturePhoto env s = spec_accept cur (blob env) s \<and>
         photoCount (capturePhoto env s) = 1 \<and>
         prevImageDataRef (capturePhoto env s) = Some cur \<and>
         (blob env = BlobOk \<longrightarrow> downloads (capturePhoto env s) = downloads s @ [cur])"
proof -
  have "photoCount s = 0"
    using reachable_inv [OF assms(1)] assms(3) by (simp add: sampler_inv_def)
  moreover have "accepting cur s"
    using assms(3) by (simp add: accepting_def)
  ultimately show ?thesis
    by (simp add: capturePhoto_obtained [OF assms(2)] spec_accept_fields savePhoto_downloads)
qed

theorem first_tick_accepts_witness:
  "run initial [Click] = Some (toggleCapture initial) \<and>
   frame_obtained (sees bright1 BlobOk) bright1 \<and>
   prevImageDataRef (toggleCapture initial) = None \<and>
   photoCount (capturePhoto (sees bright1 BlobOk) (toggleCapture initial)) = 1 \<and>
   prevImageDataRef (capturePhoto (sees bright1 BlobOk) (toggleCapture initial))
     = Some bright1 \<and>
   downloads (capturePhoto (sees bright1 BlobOk) (toggleCapture initial)) = [bright1]"
proof -
  have r: "run initial [Click] = Some (toggleCapture initial)" by simp
  have p: "prevImageDataRef (toggleCapture initial) = None"
    by (simp add: toggleCapture_def setInterval_def initial_def Let_def)
  have d: "downloads (toggleCapture initial) = []"
    by (simp add: toggleCapture_def setInterval_def initial_def Let_def)
  from first_tick_accepts [OF r sees_obtains p, of bright1 BlobOk, THEN conjunct2] r p d
  show ?thesis
    by (simp add: sees_obtains blob_sees)
qed

subsection \<open>Claims about starting and stopping\<close>

text \<open>
  C8. From a state in which a session is running, a stop followed at once by a start
  (two calls of \<open>toggleCapture\<close>) gives a running session whose counter is 0 and which
  has no reference frame, however many frames the session before had saved.
\<close>

theorem stop_then_start_resets:
  assumes "isCapturing s"
  shows "\<not> isCapturing (toggleCapture s) \<and>
         isCapturing (toggleCapture (toggleCapture s)) \<and>
         photoCount (toggleCapture (toggleCapture s)) = 0 \<and>
         prevImageDataRef (toggleCapture (toggleCapture s)) = None"
proof -
  have stopped: "\<not> isCapturing (toggleCapture s)"
    using assms by (simp add: toggleCapture_def Let_def)
  have "isCapturing (toggleCapture t) \<and> photoCount (toggleCapture t) = 0 \<and>
        prevImageDataRef (toggleCapture t) = None" if "\<not> isCapturing t" for t
    using that by (simp add: toggleCapture_def setInterval_def Let_def)
  from this [OF stopped] stopped show ?thesis by simp
qed

theorem stop_then_start_resets_witness:
  "isCapturing after_first_save \<and> photoCount after_first_save = 1 \<and>
   prevImageDataRef after_first_save = Some dark1 \<and>
   photoCount (toggleCapture (toggleCapture after_first_save)) = 0 \<and>
   prevImageDataRef (toggleCapture (toggleCapture after_first_save)) = None"
  using stop_then_start_resets [of after_first_save]
  by (simp add: after_first_save_fields)

text \<open>
  C9. When a running session in a reachable state is stopped, no timer is left armed:
  no firing of a timer is possible in the state after the stop, and whatever happens
  next to the sampler starts with a press of the button, never with a tick.
\<close>

theorem no_tick_after_stop:
  assumes "run initial evs = Some s" "isCapturing s"
  shows "\<not> isCapturing (toggleCapture s) \<and>
         timers (toggleCapture s) = [] \<and>
         fire (TimerFires h env) (toggleCapture s) = None \<and>
         (run (toggleCapture s) evs' = Some t \<longrightarrow> evs' = [] \<or> hd evs' = Click)"
proof -
  have inv: "sampler_inv s" by (rule reachable_inv [OF assms(1)])
  have idle: "\<not> isCapturing (toggleCapture s)"
    using assms(2) by (simp add: toggleCapture_def Let_def)
  have none: "timers (toggleCapture s) = []"
    using inv assms(2)
    by (auto simp: sampler_inv_def toggleCapture_def clearInterval_def Let_def
        split: option.splits)
  then have nofire: "fire (TimerFires h' env') (toggleCapture s) = None" for h' env'
    by simp
  have "evs' = [] \<or> hd evs' = Click" if "run (toggleCapture s) evs' = Some t"
  proof (cases evs')
    case Nil
    then show ?thesis by simp
  next
    case (Cons e es)
    with that nofire show ?thesis by (cases e) simp_all
  qed
  with idle none nofire show ?thesis by simp
qed

theorem no_tick_after_stop_witness:
  "run initial [Click, TimerFires 1 (sees dark1 BlobOk)] = Some after_first_save \<and>
   isCapturing after_first_save \<and>
   timers after_first_save = [1] \<and>
   timers (toggleCapture after_first_save) = [] \<and>
   fire (TimerFires 1 (sees dark1 BlobOk)) (toggleCapture after_first_save) = None"
proof -
  have c: "isCapturing after_first_save" by (rule after_first_save_fields)
  from no_tick_after_stop [OF after_first_save_reachable c,
      of 1 "sees dark1 BlobOk" "[Click]" "toggleCapture (toggleCapture after_first_save)"]
    after_first_save_reachable c
  show ?thesis by (simp add: after_first_save_fields)
qed

end
